theory Spec2Isabelle
  imports Complex_Main "HOL-Library.Word"
begin

section \<open>Data model of the viewer (rviz\_viewer.cpp)\<close>

text \<open>
  The viewer works on values of three library types whose arithmetic is not part of this
  repository: \<open>Eigen::Isometry3d\<close> (type variable \<open>'iso\<close>), \<open>Eigen::Vector4d\<close>
  (\<open>'pt\<close>) and \<open>glim::TrajectoryManager\<close> (\<open>'traj\<close>). Their operations are taken
  as parameters, collected in the record \<open>env\<close>, so every theorem below holds for any
  implementation of them. Time stamps are the \<open>double\<close> values of the source, modelled as
  \<open>real\<close>; they are only copied, never computed with.

  Point frames (\<open>gtsam_ext::Frame\<close>) are owned by the estimator and held by shared
  pointer: a \<open>frame_ref\<close> is such a pointer, and \<open>frame_store\<close> gives the points it
  refers to at the moment they are read (\<open>size()\<close> is the length of that list).
\<close>

type_synonym frame_ref = nat

record ('traj, 'iso, 'pt) env =
  iso_mul :: "'iso \<Rightarrow> 'iso \<Rightarrow> 'iso"                 \<comment> \<open>\<open>Isometry3d * Isometry3d\<close>\<close>
  iso_app :: "'iso \<Rightarrow> 'pt \<Rightarrow> 'pt"                   \<comment> \<open>\<open>Isometry3d * Vector4d\<close>\<close>
  vec_uninit :: "'pt"                              \<comment> \<open>what a fresh buffer slot holds\<close>
  add_odom :: "real \<Rightarrow> 'iso \<Rightarrow> 'traj \<Rightarrow> 'traj"
  get_T_world_odom :: "'traj \<Rightarrow> 'iso"
  odom2world :: "'traj \<Rightarrow> 'iso \<Rightarrow> 'iso"
  update_anchor :: "real \<Rightarrow> 'iso \<Rightarrow> 'traj \<Rightarrow> 'traj"
  frame_store :: "frame_ref \<Rightarrow> 'pt list"
  clock_now :: "real"                              \<comment> \<open>\<open>rclcpp::Clock(RCL_ROS_TIME).now().seconds()\<close>\<close>

datatype FrameID = LIDAR | IMU | WORLD

record 'iso EstimationFrame =
  stamp :: real
  frame_id :: FrameID
  T_world_imu :: 'iso
  T_lidar_imu :: 'iso
  frame :: frame_ref

record 'iso SubMap =
  T_world_origin :: 'iso
  T_origin_endpoint_R :: 'iso
  odom_frames :: "'iso EstimationFrame list"
  submap_frame :: frame_ref

text \<open>\<open>gtsam_ext::FrameCPU\<close> as the rebuild fills it: the \<open>num_points\<close> field (an
  \<open>int\<close>) and the point buffer \<open>points_storage\<close>.\<close>

record 'pt FrameCPU =
  num_points :: int
  points_storage :: "'pt list"

text \<open>Messages. \<open>frame_to_pointcloud2\<close> and the ROS message types belong to other
  packages; a message is modelled by the values the viewer puts into it. A pose written
  field by field (translation x, y, z and the quaternion of the linear part) is kept as
  the pose it was read from. The header stamp is the value handed to \<open>rclcpp::Time\<close>.\<close>

record 'pt PointCloud2 =
  cloud_frame_id :: string
  cloud_stamp :: real
  cloud :: "'pt FrameCPU"

record 'iso TransformStamped =
  header_stamp :: real
  header_frame_id :: string
  child_frame_id :: string
  transform :: 'iso

record 'iso Odometry =
  odom_stamp :: real
  odom_header_frame_id :: string
  odom_child_frame_id :: string
  odom_pose :: 'iso

record 'iso PoseStamped =
  pose_stamp :: real
  pose_frame_id :: string
  pose :: 'iso

text \<open>The only closure ever handed to \<open>invoke\<close> is the lambda of
  \<open>globalmap_on_update_submaps\<close>, which captures \<open>latest_submap\<close> (a shared pointer)
  and \<open>submap_poses\<close> (a copy).\<close>

datatype 'iso task = Rebuild "'iso SubMap" "'iso list"

text \<open>Calls the viewer makes on its collaborators, in program order.\<close>

datatype ('iso, 'pt) call =
    PointsPublish "'pt PointCloud2"
  | SendTransform "'iso TransformStamped"
  | OdomPublish "'iso Odometry"
  | PosePublish "'iso PoseStamped"
  | MapPublish "'pt PointCloud2"
  | AddOdom real 'iso
  | UpdateAnchor real 'iso
  | Invoke "'iso task"
  | TaskCall "'iso task"
  | SleepFor int

text \<open>Undefined behaviour of the C++ source is an error value of the model.\<close>

datatype error =
    BackOfEmptyBatch
  | BackOfEmptyOdomFrames
  | PoseIndexOutOfRange
  | IntOverflow

record ('traj, 'iso, 'pt) RvizViewer =
  points_subscription_count :: nat
  map_subscription_count :: nat
  odom_subscription_count :: nat
  pose_subscription_count :: nat
  trajectory :: 'traj
  submaps :: "frame_ref list"
  invoke_queue :: "'iso task list"
  calls :: "('iso, 'pt) call list"

definition imu_frame_id :: string where "imu_frame_id = ''imu''"
definition lidar_frame_id :: string where "lidar_frame_id = ''lidar''"
definition odom_frame_id :: string where "odom_frame_id = ''odom''"
definition world_frame_id :: string where "world_frame_id = ''world''"

definition emit ::
  "('iso, 'pt) call \<Rightarrow> ('traj, 'iso, 'pt) RvizViewer \<Rightarrow> ('traj, 'iso, 'pt) RvizViewer" where
  "emit c s = s\<lparr>calls := calls s @ [c]\<rparr>"

definition frame_to_pointcloud2 :: "string \<Rightarrow> real \<Rightarrow> 'pt FrameCPU \<Rightarrow> 'pt PointCloud2" where
  "frame_to_pointcloud2 fid t f = \<lparr>cloud_frame_id = fid, cloud_stamp = t, cloud = f\<rparr>"

definition stored_frame :: "('traj, 'iso, 'pt) env \<Rightarrow> frame_ref \<Rightarrow> 'pt FrameCPU" where
  "stored_frame E r =
     \<lparr>num_points = int (length (frame_store E r)), points_storage = frame_store E r\<rparr>"

section \<open>frontend\_new\_frame\<close>

definition frame_id_string :: "FrameID \<Rightarrow> string" where
  "frame_id_string k = (case k of LIDAR \<Rightarrow> lidar_frame_id | IMU \<Rightarrow> imu_frame_id | WORLD \<Rightarrow> world_frame_id)"

definition frontend_new_frame ::
  "('traj, 'iso, 'pt) env \<Rightarrow> 'iso EstimationFrame \<Rightarrow> ('traj, 'iso, 'pt) RvizViewer
     \<Rightarrow> ('traj, 'iso, 'pt) RvizViewer" where
  "frontend_new_frame E new_frame s =
    (let s1 = (if points_subscription_count s \<noteq> 0
               then emit (PointsPublish (frame_to_pointcloud2 (frame_id_string (frame_id new_frame))
                            (stamp new_frame) (stored_frame E (frame new_frame)))) s
               else s);
         T_odom_imu = T_world_imu new_frame;
         T_lidar_imu' = T_lidar_imu new_frame;
         traj = add_odom E (stamp new_frame) (T_world_imu new_frame) (trajectory s1);
         T_world_odom = get_T_world_odom E traj;
         T_world_imu' = odom2world E traj T_odom_imu;
         s2 = emit (AddOdom (stamp new_frame) (T_world_imu new_frame)) (s1\<lparr>trajectory := traj\<rparr>);
         s3 = emit (SendTransform \<lparr>header_stamp = stamp new_frame, header_frame_id = odom_frame_id,
                      child_frame_id = imu_frame_id, transform = T_odom_imu\<rparr>) s2;
         s4 = emit (SendTransform \<lparr>header_stamp = stamp new_frame, header_frame_id = imu_frame_id,
                      child_frame_id = lidar_frame_id, transform = T_lidar_imu'\<rparr>) s3;
         s5 = emit (SendTransform \<lparr>header_stamp = stamp new_frame, header_frame_id = world_frame_id,
                      child_frame_id = odom_frame_id, transform = T_world_odom\<rparr>) s4;
         s6 = (if odom_subscription_count s5 \<noteq> 0
               then emit (OdomPublish \<lparr>odom_stamp = stamp new_frame, odom_header_frame_id = odom_frame_id,
                            odom_child_frame_id = imu_frame_id, odom_pose = T_odom_imu\<rparr>) s5
               else s5)
     in (if pose_subscription_count s6 \<noteq> 0
         then emit (PosePublish \<lparr>pose_stamp = stamp new_frame, pose_frame_id = world_frame_id,
                      pose = T_world_imu'\<rparr>) s6
         else s6))"

section \<open>invoke and globalmap\_on\_update\_submaps\<close>

definition invoke ::
  "'iso task \<Rightarrow> ('traj, 'iso, 'pt) RvizViewer \<Rightarrow> ('traj, 'iso, 'pt) RvizViewer" where
  "invoke t s = emit (Invoke t) (s\<lparr>invoke_queue := invoke_queue s @ [t]\<rparr>)"

text \<open>The synchronous part of the batch handler. \<open>submaps.back()\<close> and
  \<open>odom_frames.back()\<close> on an empty vector are undefined in C++; the model returns the
  error. The loop of lines 178 to 181 copies \<open>T_world_origin\<close> of every submap of the
  batch, index by index, into a vector of the batch's size.\<close>

definition globalmap_on_update_submaps ::
  "('traj, 'iso, 'pt) env \<Rightarrow> 'iso SubMap list \<Rightarrow> ('traj, 'iso, 'pt) RvizViewer
     \<Rightarrow> error + ('traj, 'iso, 'pt) RvizViewer" where
  "globalmap_on_update_submaps E batch s =
    (if batch = [] then Inl BackOfEmptyBatch
     else let latest_submap = last batch in
       if odom_frames latest_submap = [] then Inl BackOfEmptyOdomFrames
       else let stamp_endpoint_R = stamp (last (odom_frames latest_submap));
                T_world_endpoint_R =
                  iso_mul E (T_world_origin latest_submap) (T_origin_endpoint_R latest_submap);
                s1 = emit (UpdateAnchor stamp_endpoint_R T_world_endpoint_R)
                       (s\<lparr>trajectory :=
                            update_anchor E stamp_endpoint_R T_world_endpoint_R (trajectory s)\<rparr>);
                submap_poses = map T_world_origin batch
            in Inr (invoke (Rebuild latest_submap submap_poses) s1))"

section \<open>The deferred rebuild task\<close>

definition INT_MAX :: int where "INT_MAX = 2147483647"

text \<open>Lines 190 to 193: the \<open>int\<close> accumulator; signed overflow is undefined.\<close>

fun count_points :: "('traj, 'iso, 'pt) env \<Rightarrow> frame_ref list \<Rightarrow> int \<Rightarrow> error + int" where
  "count_points E [] total_num_points = Inr total_num_points"
| "count_points E (submap # rest) total_num_points =
     (let total = total_num_points + int (length (frame_store E submap))
      in if total > INT_MAX then Inl IntOverflow else count_points E rest total)"

text \<open>\<open>std::transform(first, last, out, f)\<close> writing into the buffer from index
  \<open>out\<close> on.\<close>

fun std_transform :: "('a \<Rightarrow> 'b) \<Rightarrow> 'a list \<Rightarrow> 'b list \<Rightarrow> nat \<Rightarrow> 'b list" where
  "std_transform f [] buf out = buf"
| "std_transform f (p # ps) buf out = std_transform f ps (buf[out := f p]) (Suc out)"

text \<open>Lines 200 to 205. \<open>submap_poses[i]\<close> stands inside the lambda, so it is read once
  for each point of submap \<open>i\<close> and not at all for a submap without points; read at an
  index beyond the captured vector it is undefined.\<close>

fun transform_loop ::
  "('traj, 'iso, 'pt) env \<Rightarrow> 'iso list \<Rightarrow> nat \<Rightarrow> frame_ref list \<Rightarrow> nat \<Rightarrow> 'pt list
     \<Rightarrow> error + 'pt list" where
  "transform_loop E submap_poses i [] begin buf = Inr buf"
| "transform_loop E submap_poses i (submap # rest) begin buf =
     (let pts = frame_store E submap
      in if pts \<noteq> [] \<and> \<not> i < length submap_poses then Inl PoseIndexOutOfRange
         else transform_loop E submap_poses (Suc i) rest (begin + length pts)
                (std_transform (iso_app E (submap_poses ! i)) pts buf begin))"

definition rebuild ::
  "('traj, 'iso, 'pt) env \<Rightarrow> frame_ref list \<Rightarrow> 'iso list \<Rightarrow> error + 'pt FrameCPU" where
  "rebuild E retained submap_poses =
    (case count_points E retained 0 of
       Inl e \<Rightarrow> Inl e
     | Inr total_num_points \<Rightarrow>
        (case transform_loop E submap_poses 0 retained 0
                (replicate (nat total_num_points) (vec_uninit E)) of
           Inl e \<Rightarrow> Inl e
         | Inr buf \<Rightarrow> Inr \<lparr>num_points = total_num_points, points_storage = buf\<rparr>))"

fun run_task ::
  "('traj, 'iso, 'pt) env \<Rightarrow> 'iso task \<Rightarrow> ('traj, 'iso, 'pt) RvizViewer
     \<Rightarrow> error + ('traj, 'iso, 'pt) RvizViewer" where
  "run_task E (Rebuild latest_submap submap_poses) s =
    (let s1 = s\<lparr>submaps := submaps s @ [submap_frame latest_submap]\<rparr>
     in if map_subscription_count s1 = 0 then Inr s1
        else (case rebuild E (submaps s1) submap_poses of
                Inl e \<Rightarrow> Inl e
              | Inr merged \<Rightarrow>
                  Inr (emit (MapPublish (frame_to_pointcloud2 world_frame_id (clock_now E) merged)) s1)))"

section \<open>spin\_once and the scheduler thread\<close>

text \<open>The loop of \<open>spin_once\<close> over the queue; a task that fails ends the run.\<close>

fun run_queue ::
  "('traj, 'iso, 'pt) env \<Rightarrow> 'iso task list \<Rightarrow> ('traj, 'iso, 'pt) RvizViewer
     \<Rightarrow> error + ('traj, 'iso, 'pt) RvizViewer" where
  "run_queue E [] s = Inr s"
| "run_queue E (t # ts) s =
     (case run_task E t (emit (TaskCall t) s) of
        Inl e \<Rightarrow> Inl e
      | Inr s' \<Rightarrow> run_queue E ts s')"

definition spin_once ::
  "('traj, 'iso, 'pt) env \<Rightarrow> ('traj, 'iso, 'pt) RvizViewer
     \<Rightarrow> error + ('traj, 'iso, 'pt) RvizViewer" where
  "spin_once E s =
    (case run_queue E (invoke_queue s) s of
       Inl e \<Rightarrow> Inl e
     | Inr s' \<Rightarrow> Inr (s'\<lparr>invoke_queue := []\<rparr>))"




section \<open>The queue lock, step by step\<close>

text \<open>
  \<open>invoke\<close> (lines 213 to 216) and \<open>spin_once\<close> (lines 218 to 224) both start with a
  \<open>std::lock_guard\<close> on \<open>invoke_queue_mutex\<close> that lives to the end of the function.
  To speak about what the lock covers, the two functions are also modelled as small
  steps of two threads over the shared queue: the scheduler thread, which calls
  \<open>spin_once\<close> again and again, and a producer thread, which calls \<open>invoke\<close> on each
  task of \<open>pending\<close> in turn. A step of a thread is \<open>None\<close> when the thread cannot
  move: it waits for the mutex, or has nothing left to do. Tasks are opaque here;
  \<open>executed\<close> lists the tasks called so far.
\<close>

datatype thread = Scheduler | Producer

datatype spin_pc =
    SpinLock       \<comment> \<open>line 219, about to take the lock\<close>
  | SpinFor nat    \<comment> \<open>lines 220 to 222, lock held, iterator at this index\<close>
  | SpinUnlock     \<comment> \<open>line 224, queue cleared, lock guard about to be destroyed\<close>

datatype invoke_pc =
    InvokeLock     \<comment> \<open>line 214, about to take the lock\<close>
  | InvokePush     \<comment> \<open>line 215, lock held\<close>
  | InvokeUnlock   \<comment> \<open>line 216, lock guard about to be destroyed\<close>

record 'task queue_state =
  queue :: "'task list"
  invoke_queue_mutex :: "thread option"
  at_spin :: spin_pc
  at_invoke :: invoke_pc
  pending :: "'task list"
  executed :: "'task list"

definition scheduler_step :: "'task queue_state \<Rightarrow> 'task queue_state option" where
  "scheduler_step s =
    (case at_spin s of
       SpinLock \<Rightarrow>
         (if invoke_queue_mutex s = None
          then Some (s\<lparr>invoke_queue_mutex := Some Scheduler, at_spin := SpinFor 0\<rparr>)
          else None)
     | SpinFor i \<Rightarrow>
         (if i < length (queue s)
          then Some (s\<lparr>executed := executed s @ [queue s ! i], at_spin := SpinFor (Suc i)\<rparr>)
          else Some (s\<lparr>queue := [], at_spin := SpinUnlock\<rparr>))
     | SpinUnlock \<Rightarrow> Some (s\<lparr>invoke_queue_mutex := None, at_spin := SpinLock\<rparr>))"

definition producer_step :: "'task queue_state \<Rightarrow> 'task queue_state option" where
  "producer_step s =
    (case at_invoke s of
       InvokeLock \<Rightarrow>
         (if pending s \<noteq> [] \<and> invoke_queue_mutex s = None
          then Some (s\<lparr>invoke_queue_mutex := Some Producer, at_invoke := InvokePush\<rparr>)
          else None)
     | InvokePush \<Rightarrow>
         (case pending s of
            [] \<Rightarrow> None
          | task # rest \<Rightarrow>
              Some (s\<lparr>queue := queue s @ [task], pending := rest, at_invoke := InvokeUnlock\<rparr>))
     | InvokeUnlock \<Rightarrow> Some (s\<lparr>invoke_queue_mutex := None, at_invoke := InvokeLock\<rparr>))"

definition thread_step :: "thread \<Rightarrow> 'task queue_state \<Rightarrow> 'task queue_state option" where
  "thread_step th s = (case th of Scheduler \<Rightarrow> scheduler_step s | Producer \<Rightarrow> producer_step s)"

text \<open>A schedule names the thread that is given the processor at each step; a thread
  that cannot move leaves the state as it is.\<close>

fun interleave :: "thread list \<Rightarrow> 'task queue_state \<Rightarrow> 'task queue_state" where
  "interleave [] s = s"
| "interleave (th # ths) s =
     interleave ths (case thread_step th s of None \<Rightarrow> s | Some s' \<Rightarrow> s')"

definition queue_init :: "'task list \<Rightarrow> 'task queue_state" where
  "queue_init tasks =
     \<lparr>queue = [], invoke_queue_mutex = None, at_spin = SpinLock, at_invoke = InvokeLock,
      pending = tasks, executed = []\<rparr>"

text \<open>The tasks of the queue that the drain under way has yet to call.\<close>

definition to_call :: "'task queue_state \<Rightarrow> 'task list" where
  "to_call s =
    (case at_spin s of
       SpinLock \<Rightarrow> queue s
     | SpinFor i \<Rightarrow> drop i (queue s)
     | SpinUnlock \<Rightarrow> [])"

text \<open>A producer that has called \<open>invoke\<close> and waits at the lock.\<close>

definition producer_blocked :: "'task queue_state \<Rightarrow> bool" where
  "producer_blocked s \<longleftrightarrow>
     at_invoke s = InvokeLock \<and> pending s \<noteq> [] \<and> thread_step Producer s = None"

section \<open>A trajectory manager after the specification\<close>

text \<open>
  Modelled from the spec: \<open>glim::TrajectoryManager\<close> (glim/util/trajectory\_manager.hpp)
  is not among the sources. Section 4.1 of the specification describes it as the
  AlignmentTracker, which keeps the anchor (time stamp, world pose, and the odometry pose
  stored with it) and the latest odometry sample with the world estimate derived from it.
  Composition and inverse of poses are parameters. The theorems below hold for every
  trajectory manager; this one instantiates the \<open>'traj\<close> operations of \<open>env\<close> where
  a concrete one is wanted.
\<close>

record 'iso AlignmentTracker =
  anchor_stamp :: real
  anchor_world_pose :: 'iso
  anchor_odom_pose :: 'iso
  latest_stamp :: real
  latest_odom_pose :: 'iso
  world_pose_estimate :: 'iso

text \<open>Modelled from the spec: \<open>add_odometry_sample\<close> of section 4.1 (\<open>add_odom\<close> of
  the absent TrajectoryManager). It records the latest odometry pose and re-anchors the
  world estimate: \<open>delta = anchor_odom_pose\<inverse> \<circ> odom_pose\<close>, then
  \<open>world_pose_estimate = anchor_world_pose \<circ> delta\<close>.\<close>

definition add_odometry_sample ::
  "('iso \<Rightarrow> 'iso \<Rightarrow> 'iso) \<Rightarrow> ('iso \<Rightarrow> 'iso) \<Rightarrow> real \<Rightarrow> 'iso \<Rightarrow> 'iso AlignmentTracker
     \<Rightarrow> 'iso AlignmentTracker" where
  "add_odometry_sample mul inv_of t p tr =
     tr\<lparr>latest_stamp := t, latest_odom_pose := p,
        world_pose_estimate := mul (anchor_world_pose tr) (mul (inv_of (anchor_odom_pose tr)) p)\<rparr>"

text \<open>Modelled from the spec: \<open>current_world_to_odom\<close> of section 4.1
  (\<open>get_T_world_odom\<close> of the absent TrajectoryManager),
  \<open>anchor_world_pose \<circ> anchor_odom_pose\<inverse>\<close>.\<close>

definition current_world_to_odom ::
  "('iso \<Rightarrow> 'iso \<Rightarrow> 'iso) \<Rightarrow> ('iso \<Rightarrow> 'iso) \<Rightarrow> 'iso AlignmentTracker \<Rightarrow> 'iso" where
  "current_world_to_odom mul inv_of tr = mul (anchor_world_pose tr) (inv_of (anchor_odom_pose tr))"

text \<open>Modelled from the spec: \<open>compose_world\<close> of section 4.1 (\<open>odom2world\<close> of the
  absent TrajectoryManager), \<open>anchor_world_pose \<circ> anchor_odom_pose\<inverse> \<circ> odom_pose\<close>.\<close>

definition compose_world ::
  "('iso \<Rightarrow> 'iso \<Rightarrow> 'iso) \<Rightarrow> ('iso \<Rightarrow> 'iso) \<Rightarrow> 'iso AlignmentTracker \<Rightarrow> 'iso \<Rightarrow> 'iso" where
  "compose_world mul inv_of tr p = mul (anchor_world_pose tr) (mul (inv_of (anchor_odom_pose tr)) p)"

text \<open>Modelled from the spec: \<open>update_anchor\<close> of section 4.1 (of the absent
  TrajectoryManager). It replaces the anchor by the given time stamp and world pose and
  stores with it the latest known odometry pose; there is no check on the time stamp.\<close>

definition tracker_update_anchor ::
  "real \<Rightarrow> 'iso \<Rightarrow> 'iso AlignmentTracker \<Rightarrow> 'iso AlignmentTracker" where
  "tracker_update_anchor t world_pose tr =
     tr\<lparr>anchor_stamp := t, anchor_world_pose := world_pose,
        anchor_odom_pose := latest_odom_pose tr\<rparr>"

text \<open>The environment whose trajectory manager is the one above.\<close>

definition tracker_env ::
  "('iso \<Rightarrow> 'iso \<Rightarrow> 'iso) \<Rightarrow> ('iso \<Rightarrow> 'iso) \<Rightarrow> ('iso \<Rightarrow> 'pt \<Rightarrow> 'pt) \<Rightarrow> 'pt
     \<Rightarrow> (frame_ref \<Rightarrow> 'pt list) \<Rightarrow> real \<Rightarrow> ('iso AlignmentTracker, 'iso, 'pt) env" where
  "tracker_env mul inv_of app uninit store now =
     \<lparr>iso_mul = mul, iso_app = app, vec_uninit = uninit,
      add_odom = add_odometry_sample mul inv_of,
      get_T_world_odom = current_world_to_odom mul inv_of,
      odom2world = compose_world mul inv_of,
      update_anchor = tracker_update_anchor,
      frame_store = store, clock_now = now\<rparr>"

section \<open>A small world for examples\<close>

text \<open>Poses are translations along a line (integers under addition), points are
  integers, and a pose moves a point by adding to it. Frame 1 holds the points 1, 2;
  frame 2 holds the point 5; every other frame is empty.\<close>

definition line_store :: "frame_ref \<Rightarrow> int list" where
  "line_store r = (if r = 1 then [1, 2] else if r = 2 then [5] else [])"

definition line_env :: "(int AlignmentTracker, int, int) env" where
  "line_env = tracker_env (+) uminus (+) 0 line_store 0"

definition tracker0 :: "int AlignmentTracker" where
  "tracker0 = \<lparr>anchor_stamp = 0, anchor_world_pose = 0, anchor_odom_pose = 0,
               latest_stamp = 0, latest_odom_pose = 0, world_pose_estimate = 0\<rparr>"

text \<open>A viewer just constructed, with the given number of subscribers on every
  output.\<close>

definition viewer0 :: "nat \<Rightarrow> (int AlignmentTracker, int, int) RvizViewer" where
  "viewer0 n =
     \<lparr>points_subscription_count = n, map_subscription_count = n,
      odom_subscription_count = n, pose_subscription_count = n,
      trajectory = tracker0, submaps = [], invoke_queue = [], calls = []\<rparr>"

definition frame0 :: "int EstimationFrame" where
  "frame0 = \<lparr>stamp = 1, frame_id = LIDAR, T_world_imu = 3, T_lidar_imu = 7, frame = 1\<rparr>"

definition submapA :: "int SubMap" where
  "submapA = \<lparr>T_world_origin = 0, T_origin_endpoint_R = 4, odom_frames = [frame0],
              submap_frame = 1\<rparr>"

definition submapB :: "int SubMap" where
  "submapB = \<lparr>T_world_origin = 10, T_origin_endpoint_R = 2, odom_frames = [frame0],
              submap_frame = 2\<rparr>"

section \<open>Events and observations\<close>

text \<open>The viewer is driven by the two estimator callbacks and by the scheduler thread's
  calls of \<open>spin_once\<close>. A run handles a list of such events in order and stops at the
  first undefined step.\<close>

datatype 'iso event =
    NewFrame "'iso EstimationFrame"
  | UpdateSubmaps "'iso SubMap list"
  | SpinOnce

fun handle_event ::
  "('traj, 'iso, 'pt) env \<Rightarrow> 'iso event \<Rightarrow> ('traj, 'iso, 'pt) RvizViewer
     \<Rightarrow> error + ('traj, 'iso, 'pt) RvizViewer" where
  "handle_event E (NewFrame new_frame) s = Inr (frontend_new_frame E new_frame s)"
| "handle_event E (UpdateSubmaps batch) s = globalmap_on_update_submaps E batch s"
| "handle_event E SpinOnce s = spin_once E s"

fun run_events ::
  "('traj, 'iso, 'pt) env \<Rightarrow> 'iso event list \<Rightarrow> ('traj, 'iso, 'pt) RvizViewer
     \<Rightarrow> error + ('traj, 'iso, 'pt) RvizViewer" where
  "run_events E [] s = Inr s"
| "run_events E (ev # evs) s =
     (case handle_event E ev s of
        Inl e \<Rightarrow> Inl e
      | Inr s' \<Rightarrow> run_events E evs s')"


text \<open>What a list of calls shows: the tasks called, the point buffers of the merged maps
  published, the sleeps requested.\<close>

fun task_calls :: "('iso, 'pt) call list \<Rightarrow> 'iso task list" where
  "task_calls [] = []"
| "task_calls (TaskCall t # cs) = t # task_calls cs"
| "task_calls (c # cs) = task_calls cs"

fun map_clouds :: "('iso, 'pt) call list \<Rightarrow> 'pt FrameCPU list" where
  "map_clouds [] = []"
| "map_clouds (MapPublish m # cs) = cloud m # map_clouds cs"
| "map_clouds (c # cs) = map_clouds cs"

fun sleeps :: "('iso, 'pt) call list \<Rightarrow> int list" where
  "sleeps [] = []"
| "sleeps (SleepFor d # cs) = d # sleeps cs"
| "sleeps (c # cs) = sleeps cs"

text \<open>The frame a queued task will append, and the frames the batch events of a run
  hand over as their last submap.\<close>

fun task_frame :: "'iso task \<Rightarrow> frame_ref" where
  "task_frame (Rebuild latest_submap submap_poses) = submap_frame latest_submap"

fun batch_frames :: "'iso event list \<Rightarrow> frame_ref list" where
  "batch_frames [] = []"
| "batch_frames (UpdateSubmaps batch # evs) = submap_frame (last batch) # batch_frames evs"
| "batch_frames (ev # evs) = batch_frames evs"

text \<open>The merged buffer as the specification describes it: the points of every retained
  frame, frame \<open>i\<close> moved by pose \<open>i\<close>, one frame after the other.\<close>

fun spec_merged_points ::
  "('traj, 'iso, 'pt) env \<Rightarrow> 'iso list \<Rightarrow> nat \<Rightarrow> frame_ref list \<Rightarrow> 'pt list" where
  "spec_merged_points E submap_poses i [] = []"
| "spec_merged_points E submap_poses i (submap # rest) =
     map (iso_app E (submap_poses ! i)) (frame_store E submap)
       @ spec_merged_points E submap_poses (Suc i) rest"

definition total_points :: "('traj, 'iso, 'pt) env \<Rightarrow> frame_ref list \<Rightarrow> int" where
  "total_points E retained = (\<Sum>submap\<leftarrow>retained. int (length (frame_store E submap)))"

text \<open>The captured poses cover the retained frames from index \<open>i\<close> on: every
  frame that has points has a pose at its index.\<close>

fun poses_cover :: "('traj, 'iso, 'pt) env \<Rightarrow> 'iso list \<Rightarrow> nat \<Rightarrow> frame_ref list \<Rightarrow> bool" where
  "poses_cover E submap_poses i [] = True"
| "poses_cover E submap_poses i (submap # rest) =
     ((frame_store E submap = [] \<or> i < length submap_poses)
      \<and> poses_cover E submap_poses (Suc i) rest)"










text \<open>Who holds the queue mutex according to the program counters, and the invariant
  of the two threads: the mutex is held by the one thread that is inside its guarded
  region, and the tasks called, those waiting in the queue and those not yet handed to
  \<open>invoke\<close> make up, in this order, the tasks the producer started with.\<close>

definition lock_owner :: "'task queue_state \<Rightarrow> thread option" where
  "lock_owner s =
     (if at_spin s \<noteq> SpinLock then Some Scheduler
      else if at_invoke s \<noteq> InvokeLock then Some Producer
      else None)"

definition queue_inv :: "'task list \<Rightarrow> 'task queue_state \<Rightarrow> bool" where
  "queue_inv tasks s \<longleftrightarrow>
     invoke_queue_mutex s = lock_owner s
     \<and> (at_spin s = SpinLock \<or> at_invoke s = InvokeLock)
     \<and> (case at_spin s of SpinFor i \<Rightarrow> i \<le> length (queue s)
          | SpinUnlock \<Rightarrow> queue s = [] | SpinLock \<Rightarrow> True)
     \<and> (at_invoke s = InvokePush \<longrightarrow> pending s \<noteq> [])
     \<and> executed s @ to_call s @ pending s = tasks"

text \<open>The producer has handed over tasks 1 and 2 and wants to hand over task 3; the
  scheduler has taken the lock and called task 1.\<close>

definition mid_drain :: "nat queue_state" where
  "mid_drain = interleave
     [Producer, Producer, Producer, Producer, Producer, Producer, Scheduler, Scheduler]
     (queue_init [1, 2, 3])"

text \<open>The same run just before the scheduler takes the lock, and just after it has
  cleared the queue.\<close>

definition before_drain :: "nat queue_state" where
  "before_drain = interleave
     [Producer, Producer, Producer, Producer, Producer, Producer]
     (queue_init [1, 2, 3])"

definition after_clear :: "nat queue_state" where
  "after_clear = interleave
     [Producer, Producer, Producer, Producer, Producer, Producer,
      Scheduler, Scheduler, Scheduler, Scheduler]
     (queue_init [1, 2, 3])"

section \<open>Simplification rules for the calls and the record fields\<close>

lemma emit_fields [simp]:
  "calls (emit c s) = calls s @ [c]"
  "trajectory (emit c s) = trajectory s"
  "submaps (emit c s) = submaps s"
  "invoke_queue (emit c s) = invoke_queue s"
  "points_subscription_count (emit c s) = points_subscription_count s"
  "map_subscription_count (emit c s) = map_subscription_count s"
  "odom_subscription_count (emit c s) = odom_subscription_count s"
  "pose_subscription_count (emit c s) = pose_subscription_count s"
  by (simp_all add: emit_def)

lemma invoke_fields [simp]:
  "calls (invoke t s) = calls s @ [Invoke t]"
  "trajectory (invoke t s) = trajectory s"
  "submaps (invoke t s) = submaps s"
  "invoke_queue (invoke t s) = invoke_queue s @ [t]"
  "points_subscription_count (invoke t s) = points_subscription_count s"
  "map_subscription_count (invoke t s) = map_subscription_count s"
  "odom_subscription_count (invoke t s) = odom_subscription_count s"
  "pose_subscription_count (invoke t s) = pose_subscription_count s"
  by (simp_all add: invoke_def)

lemmas frame_ids = imu_frame_id_def lidar_frame_id_def odom_frame_id_def world_frame_id_def

lemmas line_world = line_env_def tracker_env_def line_store_def tracker0_def viewer0_def
  frame0_def submapA_def submapB_def add_odometry_sample_def current_world_to_odom_def
  compose_world_def tracker_update_anchor_def

section \<open>What the rebuild computes\<close>

lemma total_points_simps [simp]:
  "total_points E [] = 0"
  "total_points E (r # rs) = int (length (frame_store E r)) + total_points E rs"
  by (simp_all add: total_points_def)

lemma total_points_nonneg: "0 \<le> total_points E rs"
  by (induction rs) simp_all

lemma count_points_eq:
  "count_points E rs acc =
     (if rs \<noteq> [] \<and> acc + total_points E rs > INT_MAX then Inl IntOverflow
      else Inr (acc + total_points E rs))"
proof (induction rs arbitrary: acc)
  case Nil
  show ?case by simp
next
  case (Cons r rs)
  have nn: "0 \<le> total_points E rs" by (rule total_points_nonneg)
  show ?case
    using nn by (cases "rs = []") (auto simp: Cons.IH Let_def)
qed

lemma count_points_0:
  "count_points E rs 0 =
     (if total_points E rs > INT_MAX then Inl IntOverflow else Inr (total_points E rs))"
  by (cases rs) (simp_all add: count_points_eq INT_MAX_def)

lemma std_transform_eq:
  "out + length ps \<le> length buf \<Longrightarrow>
   std_transform f ps buf out = take out buf @ map f ps @ drop (out + length ps) buf"
proof (induction ps arbitrary: buf out)
  case Nil
  show ?case by simp
next
  case (Cons p ps)
  have lt: "out < length buf" using Cons.prems by simp
  have "std_transform f (p # ps) buf out = std_transform f ps (buf[out := f p]) (Suc out)"
    by simp
  also have "\<dots> = take (Suc out) (buf[out := f p]) @ map f ps
      @ drop (Suc out + length ps) (buf[out := f p])"
    using Cons.prems by (intro Cons.IH) simp
  also have "take (Suc out) (buf[out := f p]) = take out buf @ [f p]"
    using lt by (simp add: take_Suc_conv_app_nth)
  also have "drop (Suc out + length ps) (buf[out := f p]) = drop (out + length (p # ps)) buf"
    by simp
  finally show ?case by simp
qed

lemma length_spec_merged_points:
  "int (length (spec_merged_points E poses i rs)) = total_points E rs"
  by (induction rs arbitrary: i) simp_all

lemma transform_loop_eq:
  "off + nat (total_points E rs) \<le> length buf \<Longrightarrow>
   transform_loop E poses i rs off buf =
     (if poses_cover E poses i rs
      then Inr (take off buf @ spec_merged_points E poses i rs
                @ drop (off + nat (total_points E rs)) buf)
      else Inl PoseIndexOutOfRange)"
proof (induction rs arbitrary: i off buf)
  case Nil
  show ?case by simp
next
  case (Cons r rs)
  let ?pts = "frame_store E r"
  let ?f = "iso_app E (poses ! i)"
  have nn: "0 \<le> total_points E rs" by (rule total_points_nonneg)
  have split: "nat (total_points E (r # rs)) = length ?pts + nat (total_points E rs)"
    using nn by (simp add: nat_add_distrib)
  have room: "off + length ?pts \<le> length buf" using Cons.prems split by simp
  let ?buf' = "std_transform ?f ?pts buf off"
  have buf': "?buf' = take off buf @ map ?f ?pts @ drop (off + length ?pts) buf"
    using room by (rule std_transform_eq)
  have len: "length ?buf' = length buf" using room by (simp add: buf')
  have room': "(off + length ?pts) + nat (total_points E rs) \<le> length ?buf'"
    using Cons.prems split len by simp
  have IH: "transform_loop E poses (Suc i) rs (off + length ?pts) ?buf' =
     (if poses_cover E poses (Suc i) rs
      then Inr (take (off + length ?pts) ?buf' @ spec_merged_points E poses (Suc i) rs
                @ drop ((off + length ?pts) + nat (total_points E rs)) ?buf')
      else Inl PoseIndexOutOfRange)"
    using room' by (rule Cons.IH)
  have tk: "take (off + length ?pts) ?buf' = take off buf @ map ?f ?pts"
    using room by (simp add: buf')
  have dr: "drop ((off + length ?pts) + nat (total_points E rs)) ?buf'
      = drop ((off + length ?pts) + nat (total_points E rs)) buf"
    using room by (simp add: buf' ac_simps)
  have idx: "off + nat (total_points E (r # rs)) = (off + length ?pts) + nat (total_points E rs)"
    using split by simp
  show ?case
    unfolding idx by (simp add: Let_def IH tk dr)
qed

lemma rebuild_eq:
  "rebuild E retained poses =
     (if total_points E retained > INT_MAX then Inl IntOverflow
      else if poses_cover E poses 0 retained
      then Inr \<lparr>num_points = total_points E retained,
                points_storage = spec_merged_points E poses 0 retained\<rparr>
      else Inl PoseIndexOutOfRange)"
proof -
  have len: "length (spec_merged_points E poses 0 retained) = nat (total_points E retained)"
    using length_spec_merged_points [of E poses 0 retained] by simp
  show ?thesis
    by (simp add: rebuild_def count_points_0 transform_loop_eq len [symmetric])
qed

lemma spec_merged_points_nth:
  "k < length rs \<Longrightarrow> j < length (frame_store E (rs ! k)) \<Longrightarrow>
   spec_merged_points E poses i rs ! (nat (total_points E (take k rs)) + j)
     = iso_app E (poses ! (i + k)) (frame_store E (rs ! k) ! j)"
proof (induction rs arbitrary: i k)
  case Nil
  then show ?case by simp
next
  case (Cons r rs)
  show ?case
  proof (cases k)
    case 0
    then show ?thesis using Cons.prems by (simp add: nth_append)
  next
    case (Suc k')
    have nn: "0 \<le> total_points E (take k' rs)" by (rule total_points_nonneg)
    have idx: "nat (total_points E (take k (r # rs))) + j
        = length (frame_store E r) + (nat (total_points E (take k' rs)) + j)"
      using nn Suc by (simp add: nat_add_distrib)
    have "spec_merged_points E poses (Suc i) rs ! (nat (total_points E (take k' rs)) + j)
        = iso_app E (poses ! (Suc i + k')) (frame_store E (rs ! k') ! j)"
      using Cons.prems Suc by (intro Cons.IH) simp_all
    then show ?thesis
      unfolding idx using Suc by (simp add: nth_append)
  qed
qed

lemma poses_cover_fails:
  "\<not> poses_cover E poses i rs \<longleftrightarrow>
     (\<exists>k<length rs. frame_store E (rs ! k) \<noteq> [] \<and> length poses \<le> i + k)"
proof (induction rs arbitrary: i)
  case Nil
  show ?case by simp
next
  case (Cons r rs)
  have "(\<exists>k<length (r # rs). frame_store E ((r # rs) ! k) \<noteq> [] \<and> length poses \<le> i + k)
      \<longleftrightarrow> (frame_store E r \<noteq> [] \<and> length poses \<le> i)
        \<or> (\<exists>k<length rs. frame_store E (rs ! k) \<noteq> [] \<and> length poses \<le> Suc i + k)"
    by (auto simp: less_Suc_eq_0_disj)
  then show ?case using Cons.IH [of "Suc i"] by auto
qed

lemma rebuild_uninit:
  "rebuild (E\<lparr>vec_uninit := u\<rparr>) retained poses = rebuild E retained poses"
proof -
  have tp: "total_points (E\<lparr>vec_uninit := u\<rparr>) rs = total_points E rs" for rs
    by (simp add: total_points_def)
  have pc: "poses_cover (E\<lparr>vec_uninit := u\<rparr>) poses i rs = poses_cover E poses i rs" for i rs
    by (induction rs arbitrary: i) simp_all
  have mp: "spec_merged_points (E\<lparr>vec_uninit := u\<rparr>) poses i rs = spec_merged_points E poses i rs" for i rs
    by (induction rs arbitrary: i) simp_all
  show ?thesis by (simp only: rebuild_eq tp pc mp)
qed

section \<open>What a task and a drain change\<close>

lemma task_calls_append [simp]: "task_calls (xs @ ys) = task_calls xs @ task_calls ys"
  by (induction xs rule: task_calls.induct) simp_all

lemma map_clouds_append [simp]: "map_clouds (xs @ ys) = map_clouds xs @ map_clouds ys"
  by (induction xs rule: map_clouds.induct) simp_all

lemma sleeps_append [simp]: "sleeps (xs @ ys) = sleeps xs @ sleeps ys"
  by (induction xs rule: sleeps.induct) simp_all

lemma run_task_cases:
  "run_task E (Rebuild latest poses) s =
    (if map_subscription_count s = 0
     then Inr (s\<lparr>submaps := submaps s @ [submap_frame latest]\<rparr>)
     else (case rebuild E (submaps s @ [submap_frame latest]) poses of
             Inl e \<Rightarrow> Inl e
           | Inr merged \<Rightarrow>
               Inr (s\<lparr>submaps := submaps s @ [submap_frame latest],
                      calls := calls s @ [MapPublish \<lparr>cloud_frame_id = world_frame_id,
                                 cloud_stamp = clock_now E, cloud = merged\<rparr>]\<rparr>)))"
  by (simp add: Let_def emit_def frame_to_pointcloud2_def split: sum.splits)

declare run_task.simps [simp del]

lemma run_task_fields:
  assumes "run_task E t s = Inr s'"
  shows "submaps s' = submaps s @ [task_frame t]"
    and "invoke_queue s' = invoke_queue s"
    and "task_calls (calls s') = task_calls (calls s)"
    and "sleeps (calls s') = sleeps (calls s)"
    and "map_subscription_count s' = map_subscription_count s"
    and "trajectory s' = trajectory s"
proof -
  obtain l p where t: "t = Rebuild l p" by (cases t)
  show "submaps s' = submaps s @ [task_frame t]"
    and "invoke_queue s' = invoke_queue s"
    and "task_calls (calls s') = task_calls (calls s)"
    and "sleeps (calls s') = sleeps (calls s)"
    and "map_subscription_count s' = map_subscription_count s"
    and "trajectory s' = trajectory s"
    using assms unfolding t run_task_cases
    by (auto split: if_splits sum.splits)
qed

lemma run_queue_fields:
  "run_queue E q s = Inr s' \<Longrightarrow>
     submaps s' = submaps s @ map task_frame q \<and> invoke_queue s' = invoke_queue s
     \<and> task_calls (calls s') = task_calls (calls s) @ q
     \<and> sleeps (calls s') = sleeps (calls s)
     \<and> map_subscription_count s' = map_subscription_count s
     \<and> trajectory s' = trajectory s"
proof (induction q arbitrary: s)
  case Nil
  then show ?case by simp
next
  case (Cons t q)
  from Cons.prems obtain s1 where s1: "run_task E t (emit (TaskCall t) s) = Inr s1"
    and rest: "run_queue E q s1 = Inr s'"
    by (auto split: sum.splits)
  note f = run_task_fields [OF s1]
  from Cons.IH [OF rest] show ?case by (simp add: f)
qed

lemma frontend_new_frame_fields [simp]:
  "submaps (frontend_new_frame E f s) = submaps s"
  "invoke_queue (frontend_new_frame E f s) = invoke_queue s"
  "map_subscription_count (frontend_new_frame E f s) = map_subscription_count s"
  by (simp_all add: frontend_new_frame_def Let_def)

lemma update_submaps_eq:
  "globalmap_on_update_submaps E batch s =
    (if batch = [] then Inl BackOfEmptyBatch
     else if odom_frames (last batch) = [] then Inl BackOfEmptyOdomFrames
     else Inr (s\<lparr>trajectory :=
                    update_anchor E (stamp (last (odom_frames (last batch))))
                      (iso_mul E (T_world_origin (last batch)) (T_origin_endpoint_R (last batch)))
                      (trajectory s),
                  invoke_queue := invoke_queue s @ [Rebuild (last batch) (map T_world_origin batch)],
                  calls := calls s @
                    [UpdateAnchor (stamp (last (odom_frames (last batch))))
                       (iso_mul E (T_world_origin (last batch)) (T_origin_endpoint_R (last batch))),
                     Invoke (Rebuild (last batch) (map T_world_origin batch))]\<rparr>))"
  by (simp add: globalmap_on_update_submaps_def Let_def invoke_def emit_def)

lemma spin_once_fields:
  assumes "spin_once E s = Inr s'"
  shows "submaps s' = submaps s @ map task_frame (invoke_queue s)"
    and "invoke_queue s' = []"
    and "task_calls (calls s') = task_calls (calls s) @ invoke_queue s"
    and "sleeps (calls s') = sleeps (calls s)"
    and "map_subscription_count s' = map_subscription_count s"
    and "trajectory s' = trajectory s"
proof -
  from assms obtain s1 where s1: "run_queue E (invoke_queue s) s = Inr s1"
    and s': "s' = s1\<lparr>invoke_queue := []\<rparr>"
    by (auto simp: spin_once_def split: sum.splits)
  from run_queue_fields [OF s1]
  show "submaps s' = submaps s @ map task_frame (invoke_queue s)"
    and "invoke_queue s' = []"
    and "task_calls (calls s') = task_calls (calls s) @ invoke_queue s"
    and "sleeps (calls s') = sleeps (calls s)"
    and "map_subscription_count s' = map_subscription_count s"
    and "trajectory s' = trajectory s"
    by (simp_all add: s')
qed

lemma handle_event_retained:
  assumes "handle_event E ev s = Inr s'"
  shows "submaps s' @ map task_frame (invoke_queue s')
      = submaps s @ map task_frame (invoke_queue s) @ batch_frames [ev]
    \<and> (\<exists>added. submaps s' = submaps s @ added)"
proof (cases ev)
  case (NewFrame f)
  with assms show ?thesis by auto
next
  case (UpdateSubmaps batch)
  with assms show ?thesis by (auto simp: update_submaps_eq split: if_splits)
next
  case SpinOnce
  with assms have "spin_once E s = Inr s'" by simp
  from spin_once_fields(1,2) [OF this] SpinOnce show ?thesis by simp
qed

lemma batch_frames_Cons: "batch_frames (ev # evs) = batch_frames [ev] @ batch_frames evs"
  by (cases ev) simp_all

lemma run_events_retained:
  "run_events E evs s = Inr s' \<Longrightarrow>
     submaps s' @ map task_frame (invoke_queue s')
       = submaps s @ map task_frame (invoke_queue s) @ batch_frames evs
     \<and> (\<exists>added. submaps s' = submaps s @ added)"
proof (induction evs arbitrary: s)
  case Nil
  then show ?case by simp
next
  case (Cons ev evs)
  from Cons.prems obtain s1 where s1: "handle_event E ev s = Inr s1"
    and rest: "run_events E evs s1 = Inr s'"
    by (auto split: sum.splits)
  from handle_event_retained [OF s1] obtain a1 where
    h1: "submaps s1 @ map task_frame (invoke_queue s1)
      = submaps s @ map task_frame (invoke_queue s) @ batch_frames [ev]"
    and a1: "submaps s1 = submaps s @ a1" by blast
  from Cons.IH [OF rest] obtain a2 where
    h2: "submaps s' @ map task_frame (invoke_queue s')
       = submaps s1 @ map task_frame (invoke_queue s1) @ batch_frames evs"
    and a2: "submaps s' = submaps s1 @ a2" by blast
  have "submaps s' @ map task_frame (invoke_queue s')
       = (submaps s1 @ map task_frame (invoke_queue s1)) @ batch_frames evs"
    using h2 by simp
  also have "\<dots> = submaps s @ map task_frame (invoke_queue s) @ batch_frames (ev # evs)"
    unfolding h1 by (simp add: batch_frames_Cons [of ev evs])
  finally have "submaps s' @ map task_frame (invoke_queue s')
       = submaps s @ map task_frame (invoke_queue s) @ batch_frames (ev # evs)" .
  moreover have "submaps s' = submaps s @ (a1 @ a2)" using a1 a2 by simp
  ultimately show ?case by blast
qed

section \<open>The two subtractions of the scheduler loop\<close>







section \<open>A drain in closed form\<close>









section \<open>The invariant of the queue lock\<close>

lemma queue_inv_init: "queue_inv tasks (queue_init tasks)"
  by (simp add: queue_inv_def queue_init_def lock_owner_def to_call_def)

lemma scheduler_step_inv:
  assumes "queue_inv tasks s" and "scheduler_step s = Some s'"
  shows "queue_inv tasks s'"
proof (cases "at_spin s")
  case SpinLock
  with assms show ?thesis
    by (auto simp: scheduler_step_def queue_inv_def lock_owner_def to_call_def split: if_splits)
next
  case (SpinFor i)
  show ?thesis
  proof (cases "i < length (queue s)")
    case True
    have d: "drop i (queue s) = queue s ! i # drop (Suc i) (queue s)"
      using True by (simp add: Cons_nth_drop_Suc)
    from assms SpinFor True show ?thesis
      by (auto simp: scheduler_step_def queue_inv_def lock_owner_def to_call_def d)
  next
    case False
    with assms SpinFor show ?thesis
      by (auto simp: scheduler_step_def queue_inv_def lock_owner_def to_call_def)
  qed
next
  case SpinUnlock
  with assms show ?thesis
    by (auto simp: scheduler_step_def queue_inv_def lock_owner_def to_call_def)
qed

lemma producer_step_inv:
  assumes "queue_inv tasks s" and "producer_step s = Some s'"
  shows "queue_inv tasks s'"
proof (cases "at_invoke s")
  case InvokeLock
  with assms show ?thesis
    by (auto simp: producer_step_def queue_inv_def lock_owner_def to_call_def split: if_splits)
next
  case InvokePush
  with assms show ?thesis
    by (auto simp: producer_step_def queue_inv_def lock_owner_def to_call_def
        split: if_splits list.splits)
next
  case InvokeUnlock
  with assms show ?thesis
    by (auto simp: producer_step_def queue_inv_def lock_owner_def to_call_def split: if_splits)
qed

lemma interleave_inv: "queue_inv tasks s \<Longrightarrow> queue_inv tasks (interleave schedule s)"
proof (induction schedule arbitrary: s)
  case Nil
  then show ?case by simp
next
  case (Cons th schedule)
  have "queue_inv tasks (case thread_step th s of None \<Rightarrow> s | Some s' \<Rightarrow> s')"
    using Cons.prems scheduler_step_inv producer_step_inv
    by (cases th) (auto simp: thread_step_def split: option.splits)
  from Cons.IH [OF this] show ?case by simp
qed

lemma interleave_append: "interleave (xs @ ys) s = interleave ys (interleave xs s)"
  by (induction xs arbitrary: s) simp_all

lemma spin_for_loop:
  "at_spin s = SpinFor i \<Longrightarrow> i + n = length (queue s) \<Longrightarrow>
   interleave (replicate n Scheduler) s =
     s\<lparr>executed := executed s @ drop i (queue s), at_spin := SpinFor (length (queue s))\<rparr>"
proof (induction n arbitrary: s i)
  case 0
  then show ?case by simp
next
  case (Suc n)
  let ?s1 = "s\<lparr>executed := executed s @ [queue s ! i], at_spin := SpinFor (Suc i)\<rparr>"
  have lt: "i < length (queue s)" using Suc.prems by simp
  have step: "thread_step Scheduler s = Some ?s1"
    using Suc.prems lt by (simp add: thread_step_def scheduler_step_def)
  have d: "drop i (queue s) = queue s ! i # drop (Suc i) (queue s)"
    using lt by (simp add: Cons_nth_drop_Suc)
  have "interleave (replicate n Scheduler) ?s1 =
     ?s1\<lparr>executed := executed ?s1 @ drop (Suc i) (queue ?s1),
         at_spin := SpinFor (length (queue ?s1))\<rparr>"
    using Suc.prems by (intro Suc.IH) simp_all
  then show ?case by (simp add: step d)
qed

lemma drain_alone:
  assumes "at_spin s = SpinLock" and "invoke_queue_mutex s = None"
  shows "interleave (Scheduler # replicate (length (queue s)) Scheduler @ [Scheduler, Scheduler]) s =
     s\<lparr>executed := executed s @ queue s, queue := []\<rparr>"
proof -
  let ?s1 = "s\<lparr>invoke_queue_mutex := Some Scheduler, at_spin := SpinFor 0\<rparr>"
  let ?s2 = "?s1\<lparr>executed := executed s @ queue s, at_spin := SpinFor (length (queue s))\<rparr>"
  have r: "Scheduler # replicate (length (queue s)) Scheduler @ [Scheduler, Scheduler]
      = [Scheduler] @ replicate (length (queue s)) Scheduler @ [Scheduler, Scheduler]"
    by simp
  have s1: "interleave [Scheduler] s = ?s1"
    using assms by (simp add: thread_step_def scheduler_step_def)
  have s2: "interleave (replicate (length (queue s)) Scheduler) ?s1 = ?s2"
    using spin_for_loop [of ?s1 0 "length (queue s)"] by simp
  have s3: "interleave [Scheduler, Scheduler] ?s2 = s\<lparr>executed := executed s @ queue s, queue := []\<rparr>"
    using assms by (simp add: thread_step_def scheduler_step_def)
  show ?thesis
    unfolding r interleave_append s1 s2 s3 ..
qed

lemmas step_defs = queue_init_def thread_step_def scheduler_step_def producer_step_def

lemmas eval_world = update_submaps_eq spin_once_def run_task_cases rebuild_eq emit_def
  line_world INT_MAX_def frame_ids

section \<open>C1: a new frame while nobody is subscribed\<close>

text \<open>
  C1, as stated: on a new-frame event with no subscriber on any output, no transform,
  pose or point publish call occurs, but the tracker's state is updated.

  The three \<open>sendTransform\<close> calls of lines 112, 124 and 136 stand under no subscriber
  test, so the claim fails for the transforms. On the example frame, with no subscriber
  anywhere, the calls made are \<open>add_odom\<close> and the three transform broadcasts.
\<close>

theorem new_frame_unsubscribed_counterexample:
  "calls (frontend_new_frame line_env frame0 (viewer0 0)) =
     [AddOdom 1 3,
      SendTransform \<lparr>header_stamp = 1, header_frame_id = ''odom'',
        child_frame_id = ''imu'', transform = 3\<rparr>,
      SendTransform \<lparr>header_stamp = 1, header_frame_id = ''imu'',
        child_frame_id = ''lidar'', transform = 7\<rparr>,
      SendTransform \<lparr>header_stamp = 1, header_frame_id = ''world'',
        child_frame_id = ''odom'', transform = 0\<rparr>]"
  by (simp add: frontend_new_frame_def emit_def Let_def line_world frame_ids)

text \<open>
  C1, amended: on a new-frame event with no subscriber on the point, odometry and pose
  outputs, no point, odometry or pose publish call occurs; exactly the three transforms
  odom to imu, imu to lidar and world to odom are broadcast, in this order; and the
  trajectory manager receives the frame's time stamp and pose through \<open>add_odom\<close>,
  nothing else of the viewer changing. For the trajectory manager modelled after the
  specification, the latest sample is then the frame's and the world estimate is
  derived from it (whatever the subscriber counts).
\<close>

theorem new_frame_unsubscribed:
  assumes "points_subscription_count s = 0" and "odom_subscription_count s = 0"
    and "pose_subscription_count s = 0"
  shows "frontend_new_frame E new_frame s =
      s\<lparr>trajectory := add_odom E (stamp new_frame) (T_world_imu new_frame) (trajectory s),
        calls := calls s @
          [AddOdom (stamp new_frame) (T_world_imu new_frame),
           SendTransform \<lparr>header_stamp = stamp new_frame, header_frame_id = odom_frame_id,
             child_frame_id = imu_frame_id, transform = T_world_imu new_frame\<rparr>,
           SendTransform \<lparr>header_stamp = stamp new_frame, header_frame_id = imu_frame_id,
             child_frame_id = lidar_frame_id, transform = T_lidar_imu new_frame\<rparr>,
           SendTransform \<lparr>header_stamp = stamp new_frame, header_frame_id = world_frame_id,
             child_frame_id = odom_frame_id,
             transform = get_T_world_odom E
               (add_odom E (stamp new_frame) (T_world_imu new_frame) (trajectory s))\<rparr>]\<rparr>
    \<and> trajectory (frontend_new_frame (tracker_env mul inv_of app uninit store now) new_frame' s') =
        (trajectory s')\<lparr>latest_stamp := stamp new_frame',
           latest_odom_pose := T_world_imu new_frame',
           world_pose_estimate :=
             mul (anchor_world_pose (trajectory s'))
               (mul (inv_of (anchor_odom_pose (trajectory s'))) (T_world_imu new_frame'))\<rparr>"
proof
  show "frontend_new_frame E new_frame s =
      s\<lparr>trajectory := add_odom E (stamp new_frame) (T_world_imu new_frame) (trajectory s),
        calls := calls s @
          [AddOdom (stamp new_frame) (T_world_imu new_frame),
           SendTransform \<lparr>header_stamp = stamp new_frame, header_frame_id = odom_frame_id,
             child_frame_id = imu_frame_id, transform = T_world_imu new_frame\<rparr>,
           SendTransform \<lparr>header_stamp = stamp new_frame, header_frame_id = imu_frame_id,
             child_frame_id = lidar_frame_id, transform = T_lidar_imu new_frame\<rparr>,
           SendTransform \<lparr>header_stamp = stamp new_frame, header_frame_id = world_frame_id,
             child_frame_id = odom_frame_id,
             transform = get_T_world_odom E
               (add_odom E (stamp new_frame) (T_world_imu new_frame) (trajectory s))\<rparr>]\<rparr>"
    using assms by (simp add: frontend_new_frame_def emit_def Let_def)
next
  show "trajectory (frontend_new_frame (tracker_env mul inv_of app uninit store now) new_frame' s') =
        (trajectory s')\<lparr>latest_stamp := stamp new_frame',
           latest_odom_pose := T_world_imu new_frame',
           world_pose_estimate :=
             mul (anchor_world_pose (trajectory s'))
               (mul (inv_of (anchor_odom_pose (trajectory s'))) (T_world_imu new_frame'))\<rparr>"
    by (simp add: frontend_new_frame_def Let_def tracker_env_def add_odometry_sample_def)
qed

theorem new_frame_unsubscribed_witness:
  "points_subscription_count (viewer0 0) = 0 \<and> odom_subscription_count (viewer0 0) = 0
   \<and> pose_subscription_count (viewer0 0) = 0
   \<and> length (calls (frontend_new_frame line_env frame0 (viewer0 0))) = 4
   \<and> trajectory (frontend_new_frame line_env frame0 (viewer0 0)) =
       \<lparr>anchor_stamp = 0, anchor_world_pose = 0, anchor_odom_pose = 0,
        latest_stamp = 1, latest_odom_pose = 3, world_pose_estimate = 3\<rparr>"
proof -
  have h: "points_subscription_count (viewer0 0) = 0" "odom_subscription_count (viewer0 0) = 0"
    "pose_subscription_count (viewer0 0) = 0"
    by (simp_all add: viewer0_def)
  from new_frame_unsubscribed [OF h, of line_env frame0, THEN conjunct1]
  show ?thesis by (simp add: line_world)
qed

section \<open>C2: what the queue lock covers during a drain\<close>

text \<open>
  C2, as stated: the drain first swaps the task list for an empty one and then runs the
  captured tasks, in enqueue order, without holding the lock, so that an enqueue issued
  while tasks run is never blocked by them and joins the next drain.

  \<open>spin_once\<close> has no swap: its lock guard lives from line 219 to line 224, the tasks
  are called inside it, and \<open>clear()\<close> comes after the loop. In the state
  \<open>mid_drain\<close> task 1 has been called, the queue still holds tasks 1 and 2, the
  scheduler holds the mutex, and the producer that wants to enqueue task 3 cannot move.
\<close>

theorem drain_under_lock_counterexample:
  "at_spin mid_drain = SpinFor 1 \<and> executed mid_drain = [1] \<and> queue mid_drain = [1, 2]
   \<and> invoke_queue_mutex mid_drain = Some Scheduler
   \<and> at_invoke mid_drain = InvokeLock \<and> pending mid_drain = [3]
   \<and> producer_blocked mid_drain"
  by (simp add: mid_drain_def queue_init_def thread_step_def scheduler_step_def
      producer_step_def producer_blocked_def)

text \<open>
  C2, amended: the drain takes the queue lock, calls the queued tasks in enqueue order
  while holding it, then clears the list and releases the lock; an enqueue issued by
  another thread while tasks run waits for the lock until the drain is over, and so joins
  the next drain, not the current one.

  For every schedule of the two threads and every list of tasks the producer hands over:
  the tasks called, the tasks still to call and the tasks not yet enqueued are, in this
  order, the producer's list (nothing is lost, repeated or reordered); while the
  scheduler is in its loop it holds the mutex, its next step calls the task under the
  iterator, a producer step leaves the queue as it is, and a producer with a task to
  hand over is blocked; after \<open>clear()\<close> the queue is empty and the mutex still held;
  and a drain that starts with the mutex free and runs without the producer moving calls
  the whole queue in order, empties it and releases the mutex.
\<close>

theorem drain_under_lock:
  assumes "s = interleave schedule (queue_init tasks)"
  shows "executed s @ to_call s @ pending s = tasks
    \<and> (\<forall>i. at_spin s = SpinFor i \<longrightarrow>
          invoke_queue_mutex s = Some Scheduler \<and> i \<le> length (queue s)
          \<and> (i < length (queue s) \<longrightarrow>
                map_option executed (thread_step Scheduler s) = Some (executed s @ [queue s ! i]))
          \<and> queue (interleave [Producer] s) = queue s
          \<and> (pending s \<noteq> [] \<longrightarrow> producer_blocked s))
    \<and> (at_spin s = SpinUnlock \<longrightarrow> invoke_queue_mutex s = Some Scheduler \<and> queue s = [])
    \<and> (at_spin s = SpinLock \<and> invoke_queue_mutex s = None \<longrightarrow>
          interleave (Scheduler # replicate (length (queue s)) Scheduler @ [Scheduler, Scheduler]) s
            = s\<lparr>executed := executed s @ queue s, queue := []\<rparr>)"
proof -
  have inv: "queue_inv tasks s"
    unfolding assms by (rule interleave_inv [OF queue_inv_init])
  have a: "executed s @ to_call s @ pending s = tasks"
    using inv by (simp add: queue_inv_def)
  have b: "invoke_queue_mutex s = Some Scheduler \<and> i \<le> length (queue s)
          \<and> (i < length (queue s) \<longrightarrow>
                map_option executed (thread_step Scheduler s) = Some (executed s @ [queue s ! i]))
          \<and> queue (interleave [Producer] s) = queue s
          \<and> (pending s \<noteq> [] \<longrightarrow> producer_blocked s)"
    if "at_spin s = SpinFor i" for i
    using inv that
    by (auto simp: queue_inv_def lock_owner_def thread_step_def scheduler_step_def
        producer_step_def producer_blocked_def)
  have c: "at_spin s = SpinUnlock \<longrightarrow> invoke_queue_mutex s = Some Scheduler \<and> queue s = []"
    using inv by (auto simp: queue_inv_def lock_owner_def)
  have d: "at_spin s = SpinLock \<and> invoke_queue_mutex s = None \<longrightarrow>
          interleave (Scheduler # replicate (length (queue s)) Scheduler @ [Scheduler, Scheduler]) s
            = s\<lparr>executed := executed s @ queue s, queue := []\<rparr>"
    using drain_alone by blast
  show ?thesis using a b c d by blast
qed

theorem drain_under_lock_witness:
  "executed mid_drain @ to_call mid_drain @ pending mid_drain = [1, 2, 3]
   \<and> at_spin mid_drain = SpinFor 1
   \<and> invoke_queue_mutex mid_drain = Some Scheduler
   \<and> map_option executed (thread_step Scheduler mid_drain) = Some [1, 2]
   \<and> queue (interleave [Producer] mid_drain) = queue mid_drain
   \<and> pending mid_drain \<noteq> [] \<and> producer_blocked mid_drain
   \<and> at_spin after_clear = SpinUnlock
   \<and> invoke_queue_mutex after_clear = Some Scheduler \<and> queue after_clear = []
   \<and> at_spin before_drain = SpinLock \<and> invoke_queue_mutex before_drain = None
   \<and> queue before_drain = [1, 2]
   \<and> interleave [Scheduler, Scheduler, Scheduler, Scheduler, Scheduler] before_drain
       = before_drain\<lparr>executed := [1, 2], queue := []\<rparr>"
proof -
  have at: "at_spin mid_drain = SpinFor 1" and p: "pending mid_drain \<noteq> []"
    and q: "queue mid_drain = [1, 2]" and e: "executed mid_drain = [1]"
    by (simp_all add: mid_drain_def step_defs)
  from drain_under_lock [OF mid_drain_def] at p
  have m: "executed mid_drain @ to_call mid_drain @ pending mid_drain = [1, 2, 3]
   \<and> invoke_queue_mutex mid_drain = Some Scheduler
   \<and> map_option executed (thread_step Scheduler mid_drain) = Some [1, 2]
   \<and> queue (interleave [Producer] mid_drain) = queue mid_drain
   \<and> producer_blocked mid_drain"
    by (simp add: q e)
  have ac: "at_spin after_clear = SpinUnlock"
    by (simp add: after_clear_def step_defs)
  from drain_under_lock [OF after_clear_def] ac
  have c: "invoke_queue_mutex after_clear = Some Scheduler \<and> queue after_clear = []"
    by simp
  have bd: "at_spin before_drain = SpinLock" "invoke_queue_mutex before_drain = None"
    and bq: "queue before_drain = [1, 2]" and be: "executed before_drain = []"
    by (simp_all add: before_drain_def step_defs)
  from drain_under_lock [OF before_drain_def] bd
  have d: "interleave [Scheduler, Scheduler, Scheduler, Scheduler, Scheduler] before_drain
       = before_drain\<lparr>executed := [1, 2], queue := []\<rparr>"
    by (simp add: bq be)
  show ?thesis using at p m ac c bd bq d by simp
qed

section \<open>C3: the retained collection\<close>

text \<open>
  C3, as stated: the deferred task of a batch event appends every new submap of that
  batch to the retained collection, which is append-only, so that after n batch events it
  holds exactly the submaps accumulated so far in event order.

  The lambda captures \<open>latest_submap\<close> only and pushes \<open>latest_submap->frame\<close>
  (line 184): one entry for each batch event, whatever the batch holds. A first batch
  with the two new submaps A and B leaves, after the drain, the frame of B alone.
\<close>

theorem retained_collection_counterexample:
  "(case run_events line_env [UpdateSubmaps [submapA, submapB], SpinOnce] (viewer0 0) of
      Inl e \<Rightarrow> False
    | Inr s \<Rightarrow> submaps s = [2] \<and> invoke_queue s = [])
   \<and> map submap_frame [submapA, submapB] = [1, 2]"
  by (simp add: eval_world)

text \<open>
  C3, amended: on every submap-batch event, the enqueued deferred task appends exactly
  one entry, the point frame of the batch's last submap (by shared reference), to the
  retained ordered collection, and the collection is append-only: entries are never
  removed or reordered, so once the tasks of n batch events have been drained it holds
  the last submaps' frames of those batches, in event order, after what it held before.

  For every run of events that stays defined: the retained frames followed by the frames
  of the tasks still queued are the frames retained and queued at the start followed by
  the last frame of every batch of the run; the collection at the end extends the one at
  the start; with the queue empty at both ends the collection has grown by exactly those
  last frames; a task appends the frame of its captured submap and nothing else; and the
  handler itself leaves the collection alone and enqueues one task for the batch's last
  submap.
\<close>

theorem retained_collection_append_only:
  assumes "run_events E evs s = Inr s'"
  shows "submaps s' @ map task_frame (invoke_queue s')
           = submaps s @ map task_frame (invoke_queue s) @ batch_frames evs
    \<and> (\<exists>added. submaps s' = submaps s @ added)
    \<and> (invoke_queue s = [] \<and> invoke_queue s' = [] \<longrightarrow> submaps s' = submaps s @ batch_frames evs)
    \<and> (\<forall>latest_submap submap_poses s1 s2.
          run_task E (Rebuild latest_submap submap_poses) s1 = Inr s2
            \<longrightarrow> submaps s2 = submaps s1 @ [submap_frame latest_submap])
    \<and> (\<forall>batch s1 s2.
          globalmap_on_update_submaps E batch s1 = Inr s2
            \<longrightarrow> submaps s2 = submaps s1
              \<and> invoke_queue s2 = invoke_queue s1 @ [Rebuild (last batch) (map T_world_origin batch)])"
proof -
  note r = run_events_retained [OF assms]
  have t: "submaps s2 = submaps s1 @ [submap_frame latest_submap]"
    if "run_task E (Rebuild latest_submap submap_poses) s1 = Inr s2"
    for latest_submap submap_poses s1 s2
    using run_task_fields(1) [OF that] by simp
  have u: "submaps s2 = submaps s1
      \<and> invoke_queue s2 = invoke_queue s1 @ [Rebuild (last batch) (map T_world_origin batch)]"
    if "globalmap_on_update_submaps E batch s1 = Inr s2" for batch s1 s2
    using that by (auto simp: update_submaps_eq split: if_splits)
  from r have e: "invoke_queue s = [] \<and> invoke_queue s' = [] \<longrightarrow> submaps s' = submaps s @ batch_frames evs"
    by auto
  show ?thesis using r e t u by blast
qed

theorem retained_collection_append_only_witness:
  "\<exists>s'. run_events line_env
          [UpdateSubmaps [submapA], NewFrame frame0, UpdateSubmaps [submapA, submapB], SpinOnce]
          (viewer0 0) = Inr s'
     \<and> invoke_queue (viewer0 0) = [] \<and> invoke_queue s' = []
     \<and> submaps s' = [1, 2]
     \<and> (\<exists>s2. run_task line_env (Rebuild submapB [0, 10]) (viewer0 0) = Inr s2 \<and> submaps s2 = [2])
     \<and> (\<exists>s2. globalmap_on_update_submaps line_env [submapA, submapB] (viewer0 0) = Inr s2
           \<and> submaps s2 = [] \<and> invoke_queue s2 = [Rebuild submapB [0, 10]])"
proof -
  obtain s' where e: "run_events line_env
          [UpdateSubmaps [submapA], NewFrame frame0, UpdateSubmaps [submapA, submapB], SpinOnce]
          (viewer0 0) = Inr s'" and q: "invoke_queue s' = []"
    by (simp add: eval_world frontend_new_frame_def)
  have q0: "invoke_queue (viewer0 0) = []" and s0: "submaps (viewer0 0) = []"
    by (simp_all add: viewer0_def)
  note t = retained_collection_append_only [OF e]
  from t q q0 s0 have a: "submaps s' = [1, 2]" by (simp add: submapA_def submapB_def)
  obtain s2 where r: "run_task line_env (Rebuild submapB [0, 10]) (viewer0 0) = Inr s2"
    by (simp add: run_task_cases viewer0_def)
  from t r s0 have b: "submaps s2 = [2]" by (simp add: submapB_def)
  obtain s3 where u: "globalmap_on_update_submaps line_env [submapA, submapB] (viewer0 0) = Inr s3"
    by (simp add: update_submaps_eq submapB_def)
  from t u s0 q0 have c: "submaps s3 = [] \<and> invoke_queue s3 = [Rebuild submapB [0, 10]]"
    by (simp add: submapA_def submapB_def)
  show ?thesis using e q0 q a r b u c by blast
qed

section \<open>C4: the index into the captured poses\<close>

text \<open>
  C4, as stated: each deferred rebuild moves the i-th retained submap by the i-th world
  pose captured from the batch that triggered it; these reads are within the captured
  vector for every retained submap only when the batch holds at least as many submaps as
  the collection holds after the append; and there are two batch events, each carrying
  one submap of its own, for which the second rebuild reads out of range.

  The pose is read inside the lambda of line 203, once for each point, so a retained
  submap without points causes no read and the "only when" fails. After the batch of
  submap A (frame 1) and, once drained, a batch of one submap whose frame 3 has no
  points, the collection holds two frames and the batch one submap, yet the second
  rebuild completes: it moves the two points of frame 1 by the pose of index 0 and never
  reads index 1.
\<close>

theorem rebuild_pose_index_counterexample:
  "(case run_events line_env
           [UpdateSubmaps [submapA], SpinOnce,
            UpdateSubmaps [submapB\<lparr>submap_frame := 3\<rparr>], SpinOnce] (viewer0 1) of
      Inl e \<Rightarrow> False
    | Inr s \<Rightarrow> submaps s = [1, 3]
        \<and> map points_storage (map_clouds (calls s)) = [[1, 2], [11, 12]])
   \<and> length [submapB\<lparr>submap_frame := 3\<rparr>] < length [1, 3 :: nat]
   \<and> frame_store line_env 3 = []"
  by (simp add: eval_world)

text \<open>
  C4, amended: each deferred rebuild of a collection whose point total fits an \<open>int\<close>
  transforms the i-th submap of the retained collection by the i-th world pose captured
  from the batch that triggered the rebuild;
  the pose is read once for each point, so these accesses are within bounds exactly when
  every retained submap that has points stands at an index below the size of the
  triggering batch, which holds whenever the batch contains at least as many submaps as
  the retained collection holds after the append and, when every retained submap has
  points, only then; for some sequence of two batch events each carrying a single
  distinct submap, the second rebuild reads the captured pose array out of bounds.

  With the point total within \<open>int\<close>: the rebuild reads out of range exactly when
  some retained submap that has points stands at an index the batch does not reach; a
  batch at least as long as the collection is always enough; when every retained submap
  has points, the rebuild completes exactly when the batch is at least as long as the
  collection; and a completed rebuild has moved point \<open>j\<close> of retained submap \<open>k\<close>
  by the world pose of submap \<open>k\<close> of the batch. The last conjunct is the run of the
  claim: the batch of submap A, a drain (one map published), the batch of submap B; the
  drain that follows appends B's frame as the second entry and fails on the pose of
  index 1, the captured vector holding B's pose alone.
\<close>

theorem rebuild_pose_index:
  assumes "total_points E retained \<le> INT_MAX"
  shows "(rebuild E retained (map T_world_origin batch) = Inl PoseIndexOutOfRange
            \<longleftrightarrow> (\<exists>k<length retained. frame_store E (retained ! k) \<noteq> [] \<and> length batch \<le> k))
    \<and> (length retained \<le> length batch
          \<longrightarrow> (\<exists>merged. rebuild E retained (map T_world_origin batch) = Inr merged))
    \<and> ((\<forall>submap \<in> set retained. frame_store E submap \<noteq> [])
          \<longrightarrow> ((\<exists>merged. rebuild E retained (map T_world_origin batch) = Inr merged)
                \<longleftrightarrow> length retained \<le> length batch))
    \<and> (\<forall>merged k j. rebuild E retained (map T_world_origin batch) = Inr merged
          \<longrightarrow> k < length retained \<longrightarrow> j < length (frame_store E (retained ! k))
          \<longrightarrow> k < length batch
            \<and> points_storage merged ! (nat (total_points E (take k retained)) + j)
                = iso_app E (T_world_origin (batch ! k)) (frame_store E (retained ! k) ! j))
    \<and> (case run_events line_env [UpdateSubmaps [submapA], SpinOnce, UpdateSubmaps [submapB]]
               (viewer0 1) of
          Inl e \<Rightarrow> False
        | Inr s \<Rightarrow> submaps s = [submap_frame submapA]
            \<and> invoke_queue s = [Rebuild submapB [T_world_origin submapB]]
            \<and> length (map_clouds (calls s)) = 1
            \<and> spin_once line_env s = Inl PoseIndexOutOfRange)"
proof -
  let ?poses = "map T_world_origin batch"
  let ?bad = "\<exists>k<length retained. frame_store E (retained ! k) \<noteq> [] \<and> length batch \<le> k"
  have fails: "\<not> poses_cover E ?poses 0 retained \<longleftrightarrow> ?bad"
    using poses_cover_fails [of E ?poses 0 retained] by simp
  have r: "rebuild E retained ?poses =
     (if ?bad then Inl PoseIndexOutOfRange
      else Inr \<lparr>num_points = total_points E retained,
                points_storage = spec_merged_points E ?poses 0 retained\<rparr>)"
  proof (cases "poses_cover E ?poses 0 retained")
    case True
    with fails have "\<not> ?bad" by blast
    with True assms show ?thesis by (simp add: rebuild_eq)
  next
    case False
    with fails have "?bad" by blast
    with False assms show ?thesis by (simp add: rebuild_eq)
  qed
  have a: "rebuild E retained ?poses = Inl PoseIndexOutOfRange \<longleftrightarrow> ?bad"
    by (simp add: r)
  have b: "length retained \<le> length batch \<longrightarrow> (\<exists>merged. rebuild E retained ?poses = Inr merged)"
    by (auto simp: r)
  have c: "(\<forall>submap \<in> set retained. frame_store E submap \<noteq> [])
          \<longrightarrow> ((\<exists>merged. rebuild E retained ?poses = Inr merged)
                \<longleftrightarrow> length retained \<le> length batch)"
  proof
    assume ne: "\<forall>submap \<in> set retained. frame_store E submap \<noteq> []"
    have "?bad \<longleftrightarrow> length batch < length retained"
    proof
      assume ?bad
      then show "length batch < length retained" by auto
    next
      assume lt: "length batch < length retained"
      then have "retained ! length batch \<in> set retained" by simp
      with ne have "frame_store E (retained ! length batch) \<noteq> []" by blast
      with lt show ?bad by blast
    qed
    then show "(\<exists>merged. rebuild E retained ?poses = Inr merged)
                \<longleftrightarrow> length retained \<le> length batch"
      by (auto simp: r)
  qed
  have d: "k < length batch
            \<and> points_storage merged ! (nat (total_points E (take k retained)) + j)
                = iso_app E (T_world_origin (batch ! k)) (frame_store E (retained ! k) ! j)"
    if m: "rebuild E retained ?poses = Inr merged" and k: "k < length retained"
      and j: "j < length (frame_store E (retained ! k))" for merged k j
  proof -
    from m have nb: "\<not> ?bad"
      and pts: "points_storage merged = spec_merged_points E ?poses 0 retained"
      by (auto simp: r split: if_splits)
    from j have "frame_store E (retained ! k) \<noteq> []" by auto
    with nb k have kb: "k < length batch" by force
    show ?thesis
      unfolding pts using spec_merged_points_nth [OF k j, of ?poses 0] kb by simp
  qed
  have e: "(case run_events line_env [UpdateSubmaps [submapA], SpinOnce, UpdateSubmaps [submapB]]
               (viewer0 1) of
          Inl e \<Rightarrow> False
        | Inr s \<Rightarrow> submaps s = [submap_frame submapA]
            \<and> invoke_queue s = [Rebuild submapB [T_world_origin submapB]]
            \<and> length (map_clouds (calls s)) = 1
            \<and> spin_once line_env s = Inl PoseIndexOutOfRange)"
    by (simp add: eval_world)
  show ?thesis using a b c d e by blast
qed

theorem rebuild_pose_index_witness:
  "total_points line_env [1, 2] \<le> INT_MAX
   \<and> frame_store line_env 1 \<noteq> [] \<and> frame_store line_env 2 \<noteq> []
   \<and> (\<exists>merged. rebuild line_env [1, 2] (map T_world_origin [submapA, submapB]) = Inr merged
         \<and> points_storage merged ! 2 = 15)
   \<and> rebuild line_env [1, 2] (map T_world_origin [submapB]) = Inl PoseIndexOutOfRange"
proof -
  have h: "total_points line_env [1, 2] \<le> INT_MAX"
    by (simp add: line_world INT_MAX_def)
  have n: "frame_store line_env 1 \<noteq> []" "frame_store line_env 2 \<noteq> []"
    by (simp_all add: line_world)
  note ab = rebuild_pose_index [OF h, of "[submapA, submapB]"]
  have all: "\<forall>submap \<in> set [1, 2]. frame_store line_env submap \<noteq> []" using n by simp
  from ab all obtain merged where
    m: "rebuild line_env [1, 2] (map T_world_origin [submapA, submapB]) = Inr merged"
    by auto
  have k: "(1::nat) < length [1, 2 :: nat]" and j: "0 < length (frame_store line_env ([1, 2] ! 1))"
    by (simp_all add: line_world)
  from ab m k j have "points_storage merged ! (nat (total_points line_env (take 1 [1, 2])) + 0)
      = iso_app line_env (T_world_origin ([submapA, submapB] ! 1)) (frame_store line_env ([1, 2] ! 1) ! 0)"
    by blast
  then have p: "points_storage merged ! 2 = 15" by (simp add: line_world)
  have "\<exists>k<length [1, 2 :: nat]. frame_store line_env ([1, 2] ! k) \<noteq> [] \<and> length [submapB] \<le> k"
    using n by (intro exI [of _ 1]) simp
  with rebuild_pose_index [OF h, of "[submapB]"]
  have b: "rebuild line_env [1, 2] (map T_world_origin [submapB]) = Inl PoseIndexOutOfRange"
    by blast
  show ?thesis using h n m p b by blast
qed

section \<open>C5: the merged map\<close>

text \<open>
  C5, as stated: after every completed rebuild the merged map has as many points as all
  retained submaps together, its points are the retained submaps' points, each moved by
  that submap's world pose and laid out one submap after the other, and rebuilding again
  without a new append gives the same output.

  The rebuild moves the i-th retained frame by the i-th pose of the triggering batch
  (line 203), which is that submap's pose only when batch and collection are aligned.
  After a first batch of A (world pose 0) and B (world pose 10, one point 5) the
  collection holds B's frame alone, at index 0, and the published map is the point 5
  moved by A's pose; moved by B's own pose it would be 15.
\<close>

theorem merged_map_counterexample:
  "(case run_events line_env [UpdateSubmaps [submapA, submapB], SpinOnce] (viewer0 1) of
      Inl e \<Rightarrow> False
    | Inr s \<Rightarrow> submaps s = [submap_frame submapB]
        \<and> map_clouds (calls s) = [\<lparr>num_points = 1, points_storage = [5]\<rparr>])
   \<and> map (iso_app line_env (T_world_origin submapB)) (frame_store line_env (submap_frame submapB))
       = [15]"
  by (simp add: eval_world)

text \<open>
  C5, amended: after every completed rebuild, the merged map's point count equals the sum
  of the point counts of all retained submaps, its points are the retained submaps'
  points, those of the i-th retained submap transformed by the i-th world pose captured
  from the triggering batch, and laid out sequentially at offsets accumulating submap
  sizes in retention order, and running the rebuild again on the same collection and
  poses yields identical output.

  The map published by a task that completes with a subscriber present is the result of
  \<open>rebuild\<close> on the collection after the append; its count field and the length of
  its buffer are the total, the buffer is \<open>spec_merged_points\<close>, point \<open>j\<close> of retained
  frame \<open>k\<close> stands at the offset of the sizes before \<open>k\<close> plus \<open>j\<close>, and the
  result does not depend on what the fresh buffer held.
\<close>

theorem merged_map_after_rebuild:
  assumes "run_task E (Rebuild latest_submap submap_poses) s = Inr s'"
    and "map_subscription_count s \<noteq> 0"
  shows "\<exists>merged. map_clouds (calls s') = map_clouds (calls s) @ [merged]
      \<and> rebuild E (submaps s') submap_poses = Inr merged
      \<and> num_points merged = total_points E (submaps s')
      \<and> int (length (points_storage merged)) = total_points E (submaps s')
      \<and> points_storage merged = spec_merged_points E submap_poses 0 (submaps s')
      \<and> (\<forall>k j. k < length (submaps s') \<longrightarrow> j < length (frame_store E (submaps s' ! k)) \<longrightarrow>
            points_storage merged ! (nat (total_points E (take k (submaps s'))) + j)
              = iso_app E (submap_poses ! k) (frame_store E (submaps s' ! k) ! j))
      \<and> (\<forall>u. rebuild (E\<lparr>vec_uninit := u\<rparr>) (submaps s') submap_poses = Inr merged)"
proof -
  let ?retained = "submaps s @ [submap_frame latest_submap]"
  from assms obtain merged where m: "rebuild E ?retained submap_poses = Inr merged"
    and s': "s' = s\<lparr>submaps := ?retained,
                calls := calls s @ [MapPublish \<lparr>cloud_frame_id = world_frame_id,
                               cloud_stamp = clock_now E, cloud = merged\<rparr>]\<rparr>"
    by (auto simp: run_task_cases split: sum.splits)
  have sub: "submaps s' = ?retained" by (simp add: s')
  from m have eq: "merged = \<lparr>num_points = total_points E ?retained,
      points_storage = spec_merged_points E submap_poses 0 ?retained\<rparr>"
    by (simp add: rebuild_eq split: if_splits)
  have pts: "points_storage merged = spec_merged_points E submap_poses 0 ?retained"
    and n: "num_points merged = total_points E ?retained"
    by (simp_all add: eq)
  have len: "int (length (points_storage merged)) = total_points E ?retained"
    unfolding pts by (rule length_spec_merged_points)
  have off: "points_storage merged ! (nat (total_points E (take k ?retained)) + j)
              = iso_app E (submap_poses ! k) (frame_store E (?retained ! k) ! j)"
    if "k < length ?retained" "j < length (frame_store E (?retained ! k))" for k j
    unfolding pts using spec_merged_points_nth [OF that, of submap_poses 0] by simp
  have cl: "map_clouds (calls s') = map_clouds (calls s) @ [merged]" by (simp add: s')
  show ?thesis
    unfolding sub using cl m n len pts off by (intro exI [of _ merged]) (simp add: rebuild_uninit)
qed

theorem merged_map_after_rebuild_witness:
  "\<exists>s'. run_task line_env (Rebuild submapB [0, 10]) ((viewer0 1)\<lparr>submaps := [1]\<rparr>) = Inr s'
     \<and> map_subscription_count ((viewer0 1)\<lparr>submaps := [1]\<rparr>) \<noteq> 0
     \<and> submaps s' = [1, 2]
     \<and> map_clouds (calls s') = [\<lparr>num_points = 3, points_storage = [1, 2, 15]\<rparr>]
     \<and> rebuild (line_env\<lparr>vec_uninit := 99\<rparr>) [1, 2] [0, 10]
         = Inr \<lparr>num_points = 3, points_storage = [1, 2, 15]\<rparr>"
proof -
  obtain s' where e: "run_task line_env (Rebuild submapB [0, 10]) ((viewer0 1)\<lparr>submaps := [1]\<rparr>) = Inr s'"
    and sub: "submaps s' = [1, 2]"
    by (simp add: eval_world)
  have n: "map_subscription_count ((viewer0 1)\<lparr>submaps := [1]\<rparr>) \<noteq> 0"
    and c0: "calls ((viewer0 1)\<lparr>submaps := [1]\<rparr>) = []"
    by (simp_all add: viewer0_def)
  from merged_map_after_rebuild [OF e n] obtain merged where
    m: "map_clouds (calls s') = map_clouds (calls ((viewer0 1)\<lparr>submaps := [1]\<rparr>)) @ [merged]"
    and np: "num_points merged = total_points line_env (submaps s')"
    and ps: "points_storage merged = spec_merged_points line_env [0, 10] 0 (submaps s')"
    and u: "\<forall>u. rebuild (line_env\<lparr>vec_uninit := u\<rparr>) (submaps s') [0, 10] = Inr merged"
    by blast
  have v: "merged = \<lparr>num_points = 3, points_storage = [1, 2, 15]\<rparr>"
    using np ps unfolding sub by (simp add: line_world)
  from u have "rebuild (line_env\<lparr>vec_uninit := 99\<rparr>) [1, 2] [0, 10] = Inr merged"
    unfolding sub by blast
  with m c0 e n sub v show ?thesis by simp
qed

section \<open>C6: the anchor update of the batch handler\<close>

text \<open>
  C6, as stated: for every non-empty batch, the synchronous part of the handler updates
  the anchor with the time stamp of the last odometry sample of the batch's last submap
  and with that submap's world-frame endpoint pose, before the deferred task is enqueued.

  The time stamp is read through \<open>latest_submap->odom_frames.back()\<close> (line 171)
  before \<open>update_anchor\<close> is called. For a non-empty batch whose last submap has no
  odometry frames this is the back of an empty vector: the handler is undefined there
  and no anchor update is made.
\<close>

theorem anchor_update_counterexample:
  "[submapA, submapB\<lparr>odom_frames := []\<rparr>] \<noteq> []
   \<and> globalmap_on_update_submaps line_env [submapA, submapB\<lparr>odom_frames := []\<rparr>] (viewer0 1)
       = Inl BackOfEmptyOdomFrames"
  by (simp add: update_submaps_eq)

text \<open>
  C6, amended: for every non-empty submap batch whose last submap holds at least one
  odometry frame, the synchronous part of the batch handler updates the AlignmentTracker
  anchor keyed exactly by the batch's last submap's last odometry-sample timestamp and by
  that submap's world-frame endpoint pose \<open>T_world_origin * T_origin_endpoint_R\<close>,
  before the deferred rebuild task is enqueued; the task captures the last submap and
  the world poses of the whole batch.
\<close>

theorem anchor_update_then_enqueue:
  assumes "batch \<noteq> []" and "odom_frames (last batch) \<noteq> []"
  shows "globalmap_on_update_submaps E batch s =
      Inr (s\<lparr>trajectory :=
                update_anchor E (stamp (last (odom_frames (last batch))))
                  (iso_mul E (T_world_origin (last batch)) (T_origin_endpoint_R (last batch)))
                  (trajectory s),
              invoke_queue := invoke_queue s @ [Rebuild (last batch) (map T_world_origin batch)],
              calls := calls s @
                [UpdateAnchor (stamp (last (odom_frames (last batch))))
                   (iso_mul E (T_world_origin (last batch)) (T_origin_endpoint_R (last batch))),
                 Invoke (Rebuild (last batch) (map T_world_origin batch))]\<rparr>)"
  using assms by (simp add: update_submaps_eq)

theorem anchor_update_then_enqueue_witness:
  "[submapA, submapB] \<noteq> [] \<and> odom_frames (last [submapA, submapB]) \<noteq> []
   \<and> globalmap_on_update_submaps line_env [submapA, submapB] (viewer0 0) =
      Inr ((viewer0 0)\<lparr>trajectory := tracker0\<lparr>anchor_stamp := 1, anchor_world_pose := 12\<rparr>,
              invoke_queue := [Rebuild submapB [0, 10]],
              calls := [UpdateAnchor 1 12, Invoke (Rebuild submapB [0, 10])]\<rparr>)"
proof -
  have h: "[submapA, submapB] \<noteq> []" "odom_frames (last [submapA, submapB]) \<noteq> []"
    by (simp_all add: submapB_def)
  from anchor_update_then_enqueue [OF h, of line_env "viewer0 0"]
  show ?thesis using h by (simp add: line_world)
qed

section \<open>C7: one drain calls the queued tasks once each, in order\<close>




section \<open>C8: the sleep of the scheduler loop\<close>




section \<open>C9: container accesses of the batch handler\<close>

text \<open>
  C9, as stated: for a non-empty batch the handler runs without an out-of-range container
  access, the access to the last odometry frame's time stamp included.

  \<open>latest_submap->odom_frames.back()\<close> (line 171) is not guarded: a batch of one
  submap without odometry frames is not empty, and the handler reads the back of an
  empty vector.
\<close>

theorem batch_handler_defined_counterexample:
  "[submapA\<lparr>odom_frames := []\<rparr>] \<noteq> []
   \<and> globalmap_on_update_submaps line_env [submapA\<lparr>odom_frames := []\<rparr>] (viewer0 0)
       = Inl BackOfEmptyOdomFrames"
  by (simp add: update_submaps_eq)

text \<open>
  C9, amended: under the precondition that the submap batch is non-empty and that its
  last submap holds at least one odometry frame, the synchronous part of the batch
  handler executes without any out-of-bounds container access; without either condition
  it reads the back of an empty vector.
\<close>

theorem batch_handler_defined:
  "(\<exists>s'. globalmap_on_update_submaps E batch s = Inr s')
     \<longleftrightarrow> batch \<noteq> [] \<and> odom_frames (last batch) \<noteq> []"
  by (simp add: update_submaps_eq)

theorem batch_handler_defined_witness:
  "[submapA] \<noteq> [] \<and> odom_frames (last [submapA]) \<noteq> []
   \<and> (\<exists>s'. globalmap_on_update_submaps line_env [submapA] (viewer0 0) = Inr s')"
  using batch_handler_defined [of line_env "[submapA]" "viewer0 0"]
  by (simp add: submapA_def)

section \<open>C10: the subscriber gate of the deferred task\<close>




end
